theory Spec2Isabelle
  imports Main "HOL-Library.Word" "HOL-Library.Signed_Division"
begin

section \<open>Binary search over a C int array (src/algo/c/src/example.c)\<close>

subsection \<open>C int arithmetic\<close>

text \<open>
  A C \<open>int\<close> is a 32-bit two's complement value, read through \<open>sint\<close>. Signed
  overflow, division by zero and a read outside the array are undefined behaviour in C;
  the model makes each of them a fault, so that a run which returns a value is a run
  on which none of them happened.
\<close>

type_synonym cint = "32 word"

datatype error = SignedOverflow | DivisionByZero | OutOfBounds

definition INT_MIN :: int where
  "INT_MIN = - (2 ^ 31)"

definition INT_MAX :: int where
  "INT_MAX = 2 ^ 31 - 1"

definition in_range :: "int \<Rightarrow> bool" where
  "in_range k = (INT_MIN \<le> k \<and> k \<le> INT_MAX)"

text \<open>\<open>a + b\<close>, \<open>a - b\<close> and \<open>a / b\<close> on \<open>int\<close>: the mathematical result when it is
  representable, a fault otherwise. C division truncates toward zero, which is \<open>sdiv\<close>
  on the integers (\<open>div\<close> would round toward minus infinity).\<close>

definition add_int :: "cint \<Rightarrow> cint \<Rightarrow> error + cint" where
  "add_int a b =
     (if in_range (sint a + sint b) then Inr (word_of_int (sint a + sint b))
      else Inl SignedOverflow)"

definition sub_int :: "cint \<Rightarrow> cint \<Rightarrow> error + cint" where
  "sub_int a b =
     (if in_range (sint a - sint b) then Inr (word_of_int (sint a - sint b))
      else Inl SignedOverflow)"

definition div_int :: "cint \<Rightarrow> cint \<Rightarrow> error + cint" where
  "div_int a b =
     (if sint b = 0 then Inl DivisionByZero
      else if in_range (sint a sdiv sint b) then Inr (word_of_int (sint a sdiv sint b))
      else Inl SignedOverflow)"

text \<open>\<open>arr[i]\<close>: the array is the list of its elements; an index outside it is a fault.\<close>

definition index :: "cint list \<Rightarrow> cint \<Rightarrow> error + cint" where
  "index arr i =
     (if 0 \<le> sint i \<and> nat (sint i) < length arr then Inr (arr ! nat (sint i))
      else Inl OutOfBounds)"

subsection \<open>binary_search\<close>

text \<open>\<open>int mid = left + (right - left) / 2;\<close>\<close>

definition midpoint :: "cint \<Rightarrow> cint \<Rightarrow> error + cint" where
  "midpoint left right =
     (case sub_int right left of
        Inl e \<Rightarrow> Inl e
      | Inr d \<Rightarrow>
          (case div_int d 2 of
             Inl e \<Rightarrow> Inl e
           | Inr h \<Rightarrow> add_int left h))"

text \<open>
  One pass through the body of \<open>while (left <= right)\<close>, as a function of the two
  variables the body assigns: it either leaves the function (with the value of
  \<open>return mid\<close>, or with a fault) or goes round again with new \<open>left\<close> and \<open>right\<close>.
  The body reads \<open>arr[mid]\<close> twice with no assignment in between; the model reads it
  once.
\<close>

datatype iteration = Exit "error + cint" | Next cint cint

definition loop_body :: "cint list \<Rightarrow> cint \<Rightarrow> cint \<Rightarrow> cint \<Rightarrow> iteration" where
  "loop_body arr target left right =
     (case midpoint left right of
        Inl e \<Rightarrow> Exit (Inl e)
      | Inr mid \<Rightarrow>
          (case index arr mid of
             Inl e \<Rightarrow> Exit (Inl e)
           | Inr x \<Rightarrow>
               if x = target then Exit (Inr mid)
               else if sint x < sint target then
                 (case add_int mid 1 of
                    Inl e \<Rightarrow> Exit (Inl e)
                  | Inr left' \<Rightarrow> Next left' right)
               else
                 (case sub_int mid 1 of
                    Inl e \<Rightarrow> Exit (Inl e)
                  | Inr right' \<Rightarrow> Next left right')))"

text \<open>
  The loop. The result is \<open>None\<close> exactly when the loop never exits, \<open>Some (Inl e)\<close>
  is a fault and \<open>Some (Inr r)\<close> the value the function returns; falling out of the
  loop reaches \<open>return -1\<close>.
\<close>

partial_function (option) search_loop ::
  "cint list \<Rightarrow> cint \<Rightarrow> cint \<Rightarrow> cint \<Rightarrow> (error + cint) option" where
  "search_loop arr target left right =
     (if sint left \<le> sint right then
        (case loop_body arr target left right of
           Exit res \<Rightarrow> Some res
         | Next left' right' \<Rightarrow> search_loop arr target left' right')
      else Some (Inr (- 1)))"

declare search_loop.simps [code]

text \<open>\<open>int left = 0; int right = n - 1;\<close> and then the loop.\<close>

definition binary_search :: "cint list \<Rightarrow> cint \<Rightarrow> cint \<Rightarrow> (error + cint) option" where
  "binary_search arr n target =
     (case sub_int n 1 of
        Inl e \<Rightarrow> Some (Inl e)
      | Inr right \<Rightarrow> search_loop arr target 0 right)"

subsection \<open>binary_search and the caller's array\<close>

text \<open>
  \<open>arr\<close> is a pointer to an array of the caller, so a call could also change that
  array. To say what the call does to it, the same statements are read once more as
  steps on a store, the contents of the array: each step takes the store and hands on
  the store it leaves. The only steps of \<open>binary_search\<close> that touch the array are the
  two reads \<open>arr[mid]\<close> of the body; \<open>left\<close>, \<open>right\<close> and \<open>mid\<close> are locals.
\<close>

definition read_elem :: "cint list \<Rightarrow> cint \<Rightarrow> (error + cint) \<times> cint list" where
  "read_elem mem i = (index mem i, mem)"

definition loop_body_mem ::
  "cint list \<Rightarrow> cint \<Rightarrow> cint \<Rightarrow> cint \<Rightarrow> iteration \<times> cint list" where
  "loop_body_mem mem target left right =
     (case midpoint left right of
        Inl e \<Rightarrow> (Exit (Inl e), mem)
      | Inr mid \<Rightarrow>
          (case read_elem mem mid of
             (Inl e, mem1) \<Rightarrow> (Exit (Inl e), mem1)
           | (Inr x, mem1) \<Rightarrow>
               if x = target then (Exit (Inr mid), mem1)
               else
                 (case read_elem mem1 mid of
                    (Inl e, mem2) \<Rightarrow> (Exit (Inl e), mem2)
                  | (Inr y, mem2) \<Rightarrow>
                      if sint y < sint target then
                        (case add_int mid 1 of
                           Inl e \<Rightarrow> (Exit (Inl e), mem2)
                         | Inr left' \<Rightarrow> (Next left' right, mem2))
                      else
                        (case sub_int mid 1 of
                           Inl e \<Rightarrow> (Exit (Inl e), mem2)
                         | Inr right' \<Rightarrow> (Next left right', mem2)))))"

partial_function (option) search_loop_mem ::
  "cint list \<Rightarrow> cint \<Rightarrow> cint \<Rightarrow> cint \<Rightarrow> ((error + cint) \<times> cint list) option" where
  "search_loop_mem mem target left right =
     (if sint left \<le> sint right then
        (case loop_body_mem mem target left right of
           (Exit res, mem') \<Rightarrow> Some (res, mem')
         | (Next left' right', mem') \<Rightarrow> search_loop_mem mem' target left' right')
      else Some (Inr (- 1), mem))"

declare search_loop_mem.simps [code]

definition binary_search_mem ::
  "cint list \<Rightarrow> cint \<Rightarrow> cint \<Rightarrow> ((error + cint) \<times> cint list) option" where
  "binary_search_mem mem n target =
     (case sub_int n 1 of
        Inl e \<Rightarrow> Some (Inl e, mem)
      | Inr right \<Rightarrow> search_loop_mem mem target 0 right)"

subsection \<open>main\<close>

text \<open>
  \<open>printf("%d\n", x)\<close> appends the decimal digits of \<open>x\<close>, with a minus sign when
  \<open>x\<close> is negative, and a newline to standard output.
\<close>

definition digit_char :: "nat \<Rightarrow> char" where
  "digit_char d = ''0123456789'' ! d"

fun decimal :: "nat \<Rightarrow> string" where
  "decimal k =
     (if k < 10 then [digit_char k] else decimal (k div 10) @ [digit_char (k mod 10)])"

declare decimal.simps [simp del]

definition printf_d :: "cint \<Rightarrow> string" where
  "printf_d x =
     (if sint x < 0 then CHR ''-'' # decimal (nat (- sint x)) else decimal (nat (sint x)))
     @ [CHR 0x0A]"

text \<open>
  \<open>main\<close> yields what it has written to standard output and its exit status; a fault
  in a call stops it with the output written so far. \<open>sizeof(arr) / sizeof(arr[0])\<close>
  is the number of elements of the array.
\<close>

definition main :: "(string \<times> (error + cint)) option" where
  "main =
     (let arr = [1, 3, 5, 7, 9, 11, 13];
          n = word_of_nat (length arr);
          out0 = []
      in case binary_search arr n 7 of
           None \<Rightarrow> None
         | Some (Inl e) \<Rightarrow> Some (out0, Inl e)
         | Some (Inr r1) \<Rightarrow>
             (let out1 = out0 @ printf_d r1
              in case binary_search arr n 4 of
                   None \<Rightarrow> None
                 | Some (Inl e) \<Rightarrow> Some (out1, Inl e)
                 | Some (Inr r2) \<Rightarrow>
                     (let out2 = out1 @ printf_d r2
                      in Some (out2, Inr 0))))"

section \<open>Properties\<close>

subsection \<open>C int arithmetic that does not overflow\<close>

lemma sint_word_of_int_in_range:
  "in_range k \<Longrightarrow> sint (word_of_int k :: cint) = k"
  by (simp add: in_range_def INT_MIN_def INT_MAX_def sint_sbintrunc' signed_take_bit_int_eq_self)

lemma sint_in_range: "in_range (sint (x :: cint))"
  using sint_ge [of x] sint_lt [of x]
  by (simp add: in_range_def INT_MIN_def INT_MAX_def)

lemma sint_inject_cint: "sint (a :: cint) = sint b \<Longrightarrow> a = b"
  by (rule signed_word_eqI) simp

lemma sdiv_2_nonneg: "0 \<le> (k::int) \<Longrightarrow> k sdiv 2 = k div 2"
  by (cases "k = 0") (simp_all add: signed_divide_int_def)

lemma add_int_ok:
  assumes "in_range (sint a + sint b)"
  obtains c where "add_int a b = Inr c" and "sint c = sint a + sint b"
proof
  show "add_int a b = Inr (word_of_int (sint a + sint b))"
    unfolding add_int_def using assms by (simp only: if_True)
  show "sint (word_of_int (sint a + sint b) :: cint) = sint a + sint b"
    using assms by (rule sint_word_of_int_in_range)
qed

lemma sub_int_ok:
  assumes "in_range (sint a - sint b)"
  obtains c where "sub_int a b = Inr c" and "sint c = sint a - sint b"
proof
  show "sub_int a b = Inr (word_of_int (sint a - sint b))"
    unfolding sub_int_def using assms by (simp only: if_True)
  show "sint (word_of_int (sint a - sint b) :: cint) = sint a - sint b"
    using assms by (rule sint_word_of_int_in_range)
qed

lemma div_int_ok:
  assumes "sint b \<noteq> 0" and "in_range (sint a sdiv sint b)"
  obtains c where "div_int a b = Inr c" and "sint c = sint a sdiv sint b"
proof
  show "div_int a b = Inr (word_of_int (sint a sdiv sint b))"
    unfolding div_int_def using assms by (simp only: if_True if_False)
  show "sint (word_of_int (sint a sdiv sint b) :: cint) = sint a sdiv sint b"
    using assms(2) by (rule sint_word_of_int_in_range)
qed

text \<open>Conversely, an operation that gave a value gave the mathematical one.\<close>

lemma add_int_Inr:
  assumes "add_int a b = Inr c"
  shows "sint c = sint a + sint b"
proof (cases "in_range (sint a + sint b)")
  case True
  then obtain c' where "add_int a b = Inr c'" "sint c' = sint a + sint b"
    by (rule add_int_ok)
  with assms show ?thesis by simp
next
  case False
  with assms show ?thesis by (simp add: add_int_def)
qed

lemma sub_int_Inr:
  assumes "sub_int a b = Inr c"
  shows "sint c = sint a - sint b"
proof (cases "in_range (sint a - sint b)")
  case True
  then obtain c' where "sub_int a b = Inr c'" "sint c' = sint a - sint b"
    by (rule sub_int_ok)
  with assms show ?thesis by simp
next
  case False
  with assms show ?thesis by (simp add: sub_int_def)
qed

lemma div_int_Inr:
  assumes "div_int a b = Inr c"
  shows "sint c = sint a sdiv sint b"
proof (cases "sint b \<noteq> 0 \<and> in_range (sint a sdiv sint b)")
  case True
  then obtain c' where "div_int a b = Inr c'" "sint c' = sint a sdiv sint b"
    using div_int_ok [of b a] by blast
  with assms show ?thesis by simp
next
  case False
  with assms show ?thesis by (auto simp: div_int_def split: if_splits)
qed

lemma index_ok:
  assumes "0 \<le> sint i" and "sint i < int (length arr)"
  shows "index arr i = Inr (arr ! nat (sint i))"
  using assms by (simp add: index_def)

lemma index_Inr:
  assumes "index arr i = Inr x"
  shows "0 \<le> sint i \<and> sint i < int (length arr) \<and> x = arr ! nat (sint i)"
  using assms by (auto simp: index_def split: if_splits)

subsection \<open>The midpoint\<close>

lemma midpoint_Inr:
  assumes "midpoint left right = Inr mid"
  shows "sint mid = sint left + (sint right - sint left) sdiv 2"
proof -
  from assms obtain d h where d: "sub_int right left = Inr d"
    and h: "div_int d 2 = Inr h" and m: "add_int left h = Inr mid"
    by (auto simp: midpoint_def split: sum.splits)
  have "sint h = sint d sdiv sint (2 :: cint)"
    using h by (rule div_int_Inr)
  then have "sint h = (sint right - sint left) sdiv 2"
    using sub_int_Inr [OF d] by simp
  then show ?thesis
    using add_int_Inr [OF m] by simp
qed

lemma midpoint_between:
  assumes "midpoint left right = Inr mid" and "sint left \<le> sint right"
  shows "sint left \<le> sint mid \<and> sint mid \<le> sint right"
proof -
  have "(sint right - sint left) sdiv 2 = (sint right - sint left) div 2"
    using assms(2) by (simp add: sdiv_2_nonneg)
  then have "sint mid = sint left + (sint right - sint left) div 2"
    using midpoint_Inr [OF assms(1)] by simp
  then show ?thesis
    using assms(2) by linarith
qed

lemma midpoint_ok:
  assumes "0 \<le> sint left" and "sint left \<le> sint right"
  obtains mid where "midpoint left right = Inr mid"
proof -
  let ?d = "sint right - sint left"
  have r: "sint right \<le> INT_MAX"
    using sint_in_range [of right] by (simp add: in_range_def)
  have half: "?d sdiv 2 = ?d div 2"
    using assms by (simp add: sdiv_2_nonneg)
  have "in_range ?d"
    using assms r by (simp add: in_range_def INT_MIN_def INT_MAX_def)
  then obtain d where d: "sub_int right left = Inr d" "sint d = ?d"
    by (rule sub_int_ok)
  have "sint (2 :: cint) \<noteq> 0" by simp
  moreover have "in_range (sint d sdiv sint (2 :: cint))"
    using assms r half d(2) unfolding in_range_def INT_MIN_def INT_MAX_def by simp linarith
  ultimately obtain h where h: "div_int d 2 = Inr h" "sint h = sint d sdiv sint (2 :: cint)"
    by (rule div_int_ok)
  have h': "sint h = ?d div 2"
    using h(2) d(2) half by simp
  have "in_range (sint left + sint h)"
    using assms r h' unfolding in_range_def INT_MIN_def INT_MAX_def by linarith
  then obtain m where m: "add_int left h = Inr m" "sint m = sint left + sint h"
    by (rule add_int_ok)
  have "midpoint left right = Inr m"
    by (simp add: midpoint_def d(1) h(1) m(1))
  then show ?thesis by (rule that)
qed

subsection \<open>One pass through the loop body\<close>

lemma sint_cases:
  fixes x target :: cint
  obtains "x = target" | "sint x < sint target" | "sint target < sint x"
  using sint_inject_cint [of x target] by fastforce

text \<open>
  What a pass that goes round again has done: it read \<open>arr[mid]\<close> inside the array
  at a \<open>mid\<close> between \<open>left\<close> and \<open>right\<close>, and moved \<open>left\<close> above it or
  \<open>right\<close> below it.
\<close>

lemma loop_body_Next:
  assumes "loop_body arr target left right = Next left' right'"
    and "sint left \<le> sint right"
  obtains mid :: cint where "sint left \<le> sint mid" and "sint mid \<le> sint right"
    and "0 \<le> sint mid" and "sint mid < int (length arr)"
    and "sint (arr ! nat (sint mid)) < sint target \<and> sint left' = sint mid + 1 \<and> right' = right
         \<or> sint target < sint (arr ! nat (sint mid)) \<and> left' = left \<and> sint right' = sint mid - 1"
proof -
  from assms(1) obtain mid x where mid: "midpoint left right = Inr mid"
    and x: "index arr mid = Inr x" and ne: "x \<noteq> target"
    by (auto simp: loop_body_def split: sum.splits if_splits)
  note b = midpoint_between [OF mid assms(2)]
  note ix = index_Inr [OF x]
  show ?thesis
  proof (rule that [of mid])
    show "sint left \<le> sint mid" "sint mid \<le> sint right" using b by simp_all
    show "0 \<le> sint mid" "sint mid < int (length arr)" using ix by simp_all
    show "sint (arr ! nat (sint mid)) < sint target \<and> sint left' = sint mid + 1 \<and> right' = right
         \<or> sint target < sint (arr ! nat (sint mid)) \<and> left' = left \<and> sint right' = sint mid - 1"
    proof (cases "sint x < sint target")
      case True
      with assms(1) mid x ne have "add_int mid 1 = Inr left'" "right' = right"
        by (auto simp: loop_body_def split: sum.splits)
      then show ?thesis
        using add_int_Inr [of mid 1 left'] ix True by simp
    next
      case False
      with assms(1) mid x ne have "sub_int mid 1 = Inr right'" "left' = left"
        by (auto simp: loop_body_def split: sum.splits)
      moreover have "sint target < sint x"
        using False ne by (cases x target rule: sint_cases) auto
      ultimately show ?thesis
        using sub_int_Inr [of mid 1 right'] ix by simp
    qed
  qed
qed

lemma loop_body_narrows:
  assumes "loop_body arr target left right = Next left' right'"
    and "sint left \<le> sint right"
  shows "sint left \<le> sint left'" and "sint right' \<le> sint right"
    and "sint right' - sint left' < sint right - sint left"
proof -
  from assms obtain mid :: cint where "sint left \<le> sint mid" "sint mid \<le> sint right"
    and "sint left' = sint mid + 1 \<and> right' = right
         \<or> left' = left \<and> sint right' = sint mid - 1"
    by (rule loop_body_Next) blast
  then show "sint left \<le> sint left'" and "sint right' \<le> sint right"
    and "sint right' - sint left' < sint right - sint left"
    by auto
qed

lemma loop_body_measure:
  assumes "loop_body arr target left right = Next left' right'"
    and "sint left \<le> sint right"
  shows "nat (sint right' - sint left' + 1) < nat (sint right - sint left + 1)"
  using loop_body_narrows(3) [OF assms] assms(2) by linarith

lemma loop_body_Exit_Inr:
  assumes "loop_body arr target left right = Exit (Inr r)"
    and "sint left \<le> sint right"
  shows "sint left \<le> sint r \<and> sint r \<le> sint right \<and>
           0 \<le> sint r \<and> sint r < int (length arr) \<and> arr ! nat (sint r) = target"
proof -
  from assms(1) obtain x where mid: "midpoint left right = Inr r"
    and x: "index arr r = Inr x" and eq: "x = target"
    by (auto simp: loop_body_def split: sum.splits if_splits)
  show ?thesis
    using midpoint_between [OF mid assms(2)] index_Inr [OF x] eq by simp
qed

lemma loop_body_no_fault:
  assumes "0 \<le> sint left" and "sint left \<le> sint right"
    and "sint right < int (length arr)" and "sint right < INT_MAX"
  shows "loop_body arr target left right \<noteq> Exit (Inl e)"
proof -
  obtain mid where mid: "midpoint left right = Inr mid"
    using assms(1,2) by (rule midpoint_ok)
  note b = midpoint_between [OF mid assms(2)]
  have x: "index arr mid = Inr (arr ! nat (sint mid))"
    using assms b by (intro index_ok) linarith+
  have "in_range (sint mid + sint (1 :: cint))"
    using assms b by (simp add: in_range_def INT_MIN_def INT_MAX_def)
  then obtain left' where l: "add_int mid 1 = Inr left'"
    by (rule add_int_ok)
  have "in_range (sint mid - sint (1 :: cint))"
    using assms b sint_in_range [of mid] by (simp add: in_range_def INT_MIN_def INT_MAX_def)
  then obtain right' where r: "sub_int mid 1 = Inr right'"
    by (rule sub_int_ok)
  show ?thesis
    by (simp add: loop_body_def mid x l r)
qed

subsection \<open>The loop\<close>

text \<open>The three ways a test of the loop condition can go.\<close>

lemma search_loop_exit:
  "\<not> sint left \<le> sint right \<Longrightarrow> search_loop arr target left right = Some (Inr (- 1))"
  by (subst search_loop.simps) simp

lemma search_loop_Exit:
  "sint left \<le> sint right \<Longrightarrow> loop_body arr target left right = Exit res \<Longrightarrow>
     search_loop arr target left right = Some res"
  by (subst search_loop.simps) simp

lemma search_loop_Next:
  "sint left \<le> sint right \<Longrightarrow> loop_body arr target left right = Next left' right' \<Longrightarrow>
     search_loop arr target left right = search_loop arr target left' right'"
  by (subst search_loop.simps) simp

text \<open>
  The loop exits from every \<open>left\<close> and \<open>right\<close>, by induction on the width
  \<open>right - left + 1\<close> of the interval.
\<close>

lemma search_loop_total: "\<exists>res. search_loop arr target left right = Some res"
proof (induction "nat (sint right - sint left + 1)" arbitrary: left right rule: less_induct)
  case less
  show ?case
  proof (cases "sint left \<le> sint right")
    case False
    then show ?thesis by (simp add: search_loop_exit)
  next
    case True
    show ?thesis
    proof (cases "loop_body arr target left right")
      case (Exit res)
      with True show ?thesis by (simp add: search_loop_Exit)
    next
      case (Next left' right')
      have "nat (sint right' - sint left' + 1) < nat (sint right - sint left + 1)"
        using Next True by (rule loop_body_measure)
      then have "\<exists>res. search_loop arr target left' right' = Some res"
        by (rule less.hyps)
      then show ?thesis
        using True Next by (simp add: search_loop_Next)
    qed
  qed
qed

text \<open>
  Inside the array the loop returns a value, never a fault: \<open>-1\<close> or an index in
  the interval it was started on that holds the target.
\<close>

lemma search_loop_returns:
  assumes "0 \<le> sint left" and "sint right < int (length arr)" and "sint right < INT_MAX"
  shows "\<exists>r. search_loop arr target left right = Some (Inr r) \<and>
           (r = - 1 \<or>
            sint left \<le> sint r \<and> sint r \<le> sint right \<and> arr ! nat (sint r) = target)"
  using assms
proof (induction "nat (sint right - sint left + 1)" arbitrary: left right rule: less_induct)
  case less
  show ?case
  proof (cases "sint left \<le> sint right")
    case False
    then show ?thesis by (simp add: search_loop_exit)
  next
    case True
    show ?thesis
    proof (cases "loop_body arr target left right")
      case (Exit res)
      then obtain r where r: "res = Inr r"
        using loop_body_no_fault [OF less.prems(1) True less.prems(2,3)]
        by (cases res) auto
      then show ?thesis
        using loop_body_Exit_Inr [of arr target left right r] Exit True
        by (simp add: search_loop_Exit)
    next
      case (Next left' right')
      note n = loop_body_narrows [OF Next True]
      have "nat (sint right' - sint left' + 1) < nat (sint right - sint left + 1)"
        using Next True by (rule loop_body_measure)
      moreover have "0 \<le> sint left'" "sint right' < int (length arr)" "sint right' < INT_MAX"
        using n less.prems by linarith+
      ultimately obtain r where r: "search_loop arr target left' right' = Some (Inr r)"
        "r = - 1 \<or>
          sint left' \<le> sint r \<and> sint r \<le> sint right' \<and> arr ! nat (sint r) = target"
        using less.hyps [of right' left'] by blast
      have "sint left \<le> sint left'" "sint right' \<le> sint right"
        by (fact n)+
      then show ?thesis
        using r True Next by (intro exI [of _ r]) (auto simp: search_loop_Next)
    qed
  qed
qed

text \<open>
  On a sorted array the loop keeps the target inside the interval: if it is at some
  index between \<open>left\<close> and \<open>right\<close>, the loop returns an index that holds it.
\<close>

lemma sorted_sint_nth_mono:
  assumes "sorted (map sint arr)" and "i \<le> j" and "j < length arr"
  shows "sint (arr ! i) \<le> sint (arr ! j)"
  using sorted_nth_mono [OF assms(1), of i j] assms(2,3) by simp

lemma search_loop_finds:
  assumes "sorted (map sint arr)"
    and "0 \<le> sint left" and "sint right < int (length arr)" and "sint right < INT_MAX"
    and "sint left \<le> int i" and "int i \<le> sint right" and "arr ! i = target"
  shows "\<exists>j. search_loop arr target left right = Some (Inr j) \<and>
           sint left \<le> sint j \<and> sint j \<le> sint right \<and> arr ! nat (sint j) = target"
  using assms(2-6)
proof (induction "nat (sint right - sint left + 1)" arbitrary: left right rule: less_induct)
  case less
  have True: "sint left \<le> sint right"
    using less.prems by linarith
  show ?case
  proof (cases "loop_body arr target left right")
    case (Exit res)
    then obtain r where r: "res = Inr r"
      using loop_body_no_fault [OF less.prems(1) True less.prems(2,3)]
      by (cases res) auto
    then show ?thesis
      using loop_body_Exit_Inr [of arr target left right r] Exit True
      by (simp add: search_loop_Exit)
  next
    case (Next left' right')
    from Next True obtain mid :: cint where
      mid: "sint left \<le> sint mid" "sint mid \<le> sint right" "0 \<le> sint mid"
        "sint mid < int (length arr)"
      and br: "sint (arr ! nat (sint mid)) < sint target \<and> sint left' = sint mid + 1 \<and> right' = right
            \<or> sint target < sint (arr ! nat (sint mid)) \<and> left' = left \<and> sint right' = sint mid - 1"
      by (rule loop_body_Next)
    have i: "i < length arr" using less.prems by linarith
    have m: "nat (sint mid) < length arr" using mid by linarith
    have range: "sint left' \<le> int i \<and> int i \<le> sint right'"
    proof -
      from br show ?thesis
      proof (elim disjE conjE)
        assume lt: "sint (arr ! nat (sint mid)) < sint target"
          and l': "sint left' = sint mid + 1" and r': "right' = right"
        have "\<not> i \<le> nat (sint mid)"
          using sorted_sint_nth_mono [OF assms(1) _ m, of i] lt assms(7) by auto
        then show ?thesis using l' mid(3) less.prems(5) unfolding r' by linarith
      next
        assume gt: "sint target < sint (arr ! nat (sint mid))"
          and l': "left' = left" and r': "sint right' = sint mid - 1"
        have "\<not> nat (sint mid) \<le> i"
          using sorted_sint_nth_mono [OF assms(1) _ i, of "nat (sint mid)"] gt assms(7) by auto
        then show ?thesis using r' mid(3) less.prems(4) unfolding l' by linarith
      qed
    qed
    have "nat (sint right' - sint left' + 1) < nat (sint right - sint left + 1)"
      using Next True by (rule loop_body_measure)
    moreover have "0 \<le> sint left'" "sint right' < int (length arr)" "sint right' < INT_MAX"
      using br mid less.prems by auto
    ultimately obtain j where j: "search_loop arr target left' right' = Some (Inr j)"
      "sint left' \<le> sint j" "sint j \<le> sint right'" "arr ! nat (sint j) = target"
      using less.hyps [of right' left'] range by blast
    have "sint left \<le> sint left'" "sint right' \<le> sint right"
      using br mid by auto
    then show ?thesis
      using j True Next by (intro exI [of _ j]) (auto simp: search_loop_Next)
  qed
qed

text \<open>Only the first \<open>k\<close> elements are read when \<open>right < k\<close>.\<close>

lemma index_take_eq:
  assumes "take k arr = take k arr'" and "0 \<le> sint i" and "sint i < int k"
  shows "index arr i = index arr' i"
proof -
  let ?j = "nat (sint i)"
  have j: "?j < k" using assms(2,3) by linarith
  have "min (length arr) k = min (length arr') k"
    using arg_cong [OF assms(1), of length] by simp
  then have len: "?j < length arr \<longleftrightarrow> ?j < length arr'"
    using j by linarith
  have "arr ! ?j = arr' ! ?j" if "?j < length arr"
  proof -
    have "take k arr ! ?j = arr ! ?j" "take k arr' ! ?j = arr' ! ?j"
      using j by simp_all
    then show ?thesis using assms(1) by simp
  qed
  then show ?thesis
    using len by (simp add: index_def)
qed

lemma loop_body_take_eq:
  assumes "take k arr = take k arr'"
    and "0 \<le> sint left" and "sint left \<le> sint right" and "sint right < int k"
  shows "loop_body arr target left right = loop_body arr' target left right"
proof (cases "midpoint left right")
  case (Inl e)
  then show ?thesis by (simp add: loop_body_def)
next
  case (Inr mid)
  have "index arr mid = index arr' mid"
    using midpoint_between [OF Inr assms(3)] assms(2,4)
    by (intro index_take_eq [OF assms(1)]) linarith+
  then show ?thesis by (simp add: loop_body_def Inr)
qed

lemma search_loop_take_eq:
  assumes "take k arr = take k arr'" and "0 \<le> sint left" and "sint right < int k"
  shows "search_loop arr target left right = search_loop arr' target left right"
  using assms(2,3)
proof (induction "nat (sint right - sint left + 1)" arbitrary: left right rule: less_induct)
  case less
  show ?case
  proof (cases "sint left \<le> sint right")
    case False
    then show ?thesis by (simp add: search_loop_exit)
  next
    case True
    have same: "loop_body arr target left right = loop_body arr' target left right"
      using assms(1) less.prems(1) True less.prems(2) by (rule loop_body_take_eq)
    show ?thesis
    proof (cases "loop_body arr target left right")
      case (Exit res)
      then show ?thesis
        using True same by (simp add: search_loop_Exit)
    next
      case (Next left' right')
      note n = loop_body_narrows [OF Next True]
      have "nat (sint right' - sint left' + 1) < nat (sint right - sint left + 1)"
        using Next True by (rule loop_body_measure)
      moreover have "0 \<le> sint left'" "sint right' < int k"
        using n less.prems by linarith+
      ultimately have "search_loop arr target left' right' = search_loop arr' target left' right'"
        by (rule less.hyps)
      then show ?thesis
        using True Next same by (simp add: search_loop_Next)
    qed
  qed
qed

subsection \<open>The whole call\<close>

lemma right_of_length:
  assumes "sint n = int (length arr)"
  obtains right where "sub_int n 1 = Inr right" and "sint right = int (length arr) - 1"
    and "sint right < INT_MAX"
proof -
  have n: "sint n \<le> INT_MAX"
    using sint_in_range [of n] by (simp add: in_range_def)
  have "in_range (sint n - sint (1 :: cint))"
    using assms n by (simp add: in_range_def INT_MIN_def INT_MAX_def)
  then obtain right where r: "sub_int n 1 = Inr right" "sint right = sint n - sint (1 :: cint)"
    by (rule sub_int_ok)
  show ?thesis
  proof (rule that [of right])
    show "sub_int n 1 = Inr right" by (fact r(1))
    show "sint right = int (length arr) - 1" using r(2) assms by simp
    show "sint right < INT_MAX" using r(2) n by simp
  qed
qed

lemma binary_search_returns:
  assumes "sint n = int (length arr)"
  shows "\<exists>r. binary_search arr n target = Some (Inr r) \<and>
           (r = - 1 \<or>
            0 \<le> sint r \<and> sint r < int (length arr) \<and> arr ! nat (sint r) = target)"
proof -
  from assms obtain right where r: "sub_int n 1 = Inr right"
    "sint right = int (length arr) - 1" "sint right < INT_MAX"
    by (rule right_of_length)
  have "0 \<le> sint (0 :: cint)" "sint right < int (length arr)"
    using r(2) by simp_all
  from search_loop_returns [OF this r(3), of target]
  show ?thesis
    using r(2) by (auto simp: binary_search_def r(1))
qed

lemma minus_one_negative: "sint (- 1 :: cint) < 0"
  by simp

text \<open>
  What a pass decides, it decides at the midpoint, and below \<open>INT_MAX\<close> it does not
  overflow, whatever the array.
\<close>

lemma loop_body_at_mid:
  assumes "midpoint left right = Inr mid"
  shows "(\<forall>r. loop_body arr target left right = Exit (Inr r) \<longrightarrow> r = mid) \<and>
         (\<forall>left' right'. loop_body arr target left right = Next left' right' \<longrightarrow>
            sint left' = sint mid + 1 \<and> right' = right \<or>
            left' = left \<and> sint right' = sint mid - 1)"
proof (intro conjI allI impI)
  fix r
  assume "loop_body arr target left right = Exit (Inr r)"
  then show "r = mid"
    using assms by (auto simp: loop_body_def split: sum.splits if_splits)
next
  fix left' right'
  assume n: "loop_body arr target left right = Next left' right'"
  then obtain x where x: "index arr mid = Inr x" and ne: "x \<noteq> target"
    using assms by (auto simp: loop_body_def split: sum.splits if_splits)
  show "sint left' = sint mid + 1 \<and> right' = right \<or>
        left' = left \<and> sint right' = sint mid - 1"
  proof (cases "sint x < sint target")
    case True
    with n assms x ne have "add_int mid 1 = Inr left'" "right' = right"
      by (auto simp: loop_body_def split: sum.splits)
    then show ?thesis
      using add_int_Inr [of mid 1 left'] by simp
  next
    case False
    with n assms x ne have "sub_int mid 1 = Inr right'" "left' = left"
      by (auto simp: loop_body_def split: sum.splits)
    then show ?thesis
      using sub_int_Inr [of mid 1 right'] by simp
  qed
qed

lemma loop_body_no_overflow:
  assumes "0 \<le> sint left" and "sint left \<le> sint right" and "sint right < INT_MAX"
  shows "loop_body arr target left right \<noteq> Exit (Inl SignedOverflow)"
proof -
  obtain mid where mid: "midpoint left right = Inr mid"
    using assms(1,2) by (rule midpoint_ok)
  note b = midpoint_between [OF mid assms(2)]
  have "in_range (sint mid + sint (1 :: cint))"
    using assms b by (simp add: in_range_def INT_MIN_def INT_MAX_def)
  then obtain left' where l: "add_int mid 1 = Inr left'"
    by (rule add_int_ok)
  have "in_range (sint mid - sint (1 :: cint))"
    using assms b sint_in_range [of mid] by (simp add: in_range_def INT_MIN_def INT_MAX_def)
  then obtain right' where r: "sub_int mid 1 = Inr right'"
    by (rule sub_int_ok)
  show ?thesis
    by (simp add: loop_body_def index_def mid l r)
qed

subsection \<open>The store is left as it was\<close>

text \<open>
  Read as steps on a store, the pass, the loop and the call hand on the store they
  were given, together with the result of the functions above.
\<close>

lemma loop_body_mem_eq: "loop_body_mem mem target left right = (loop_body mem target left right, mem)"
  by (simp add: loop_body_mem_def loop_body_def read_elem_def split: sum.splits)

lemma search_loop_mem_eq:
  "search_loop_mem mem target left right =
     map_option (\<lambda>res. (res, mem)) (search_loop mem target left right)"
proof (induction "nat (sint right - sint left + 1)" arbitrary: left right rule: less_induct)
  case less
  show ?case
  proof (cases "sint left \<le> sint right")
    case False
    then have "search_loop_mem mem target left right = Some (Inr (- 1), mem)"
      by (subst search_loop_mem.simps) simp
    with False show ?thesis by (simp add: search_loop_exit)
  next
    case True
    show ?thesis
    proof (cases "loop_body mem target left right")
      case (Exit res)
      with True have "search_loop_mem mem target left right = Some (res, mem)"
        by (subst search_loop_mem.simps) (simp add: loop_body_mem_eq)
      with True Exit show ?thesis by (simp add: search_loop_Exit)
    next
      case (Next left' right')
      with True have "search_loop_mem mem target left right =
          search_loop_mem mem target left' right'"
        by (subst search_loop_mem.simps) (simp add: loop_body_mem_eq)
      moreover have "nat (sint right' - sint left' + 1) < nat (sint right - sint left + 1)"
        using Next True by (rule loop_body_measure)
      then have "search_loop_mem mem target left' right' =
          map_option (\<lambda>res. (res, mem)) (search_loop mem target left' right')"
        by (rule less.hyps)
      ultimately show ?thesis
        using True Next by (simp add: search_loop_Next)
    qed
  qed
qed

lemma binary_search_mem_eq:
  "binary_search_mem mem n target =
     map_option (\<lambda>res. (res, mem)) (binary_search mem n target)"
  by (simp add: binary_search_mem_def binary_search_def search_loop_mem_eq split: sum.split)

lemma binary_search_total: "\<exists>res. binary_search arr n target = Some res"
  using search_loop_total by (simp add: binary_search_def split: sum.split)

lemma binary_search_take_eq:
  assumes "take (nat (sint n)) arr = take (nat (sint n)) arr'"
  shows "binary_search arr n target = binary_search arr' n target"
proof (cases "sub_int n 1")
  case (Inl e)
  then show ?thesis by (simp add: binary_search_def)
next
  case (Inr right)
  have "sint right = sint n - sint (1 :: cint)"
    using Inr by (rule sub_int_Inr)
  then have "0 \<le> sint (0 :: cint)" "sint right < int (nat (sint n))"
    by simp_all
  with assms have "search_loop arr target 0 right = search_loop arr' target 0 right"
    by (rule search_loop_take_eq)
  then show ?thesis by (simp add: binary_search_def Inr)
qed

subsection \<open>The example array\<close>

lemma example_sorted: "sorted (map sint [1, 3, 5, 7, 9, 11, 13 :: cint])"
  by simp

lemma example_length: "sint (7 :: cint) = int (length [1, 3, 5, 7, 9, 11, 13 :: cint])"
  by simp

lemma search_7: "binary_search [1, 3, 5, 7, 9, 11, 13] 7 7 = Some (Inr 3)"
  by code_simp

lemma search_4: "binary_search [1, 3, 5, 7, 9, 11, 13] 7 4 = Some (Inr (- 1))"
  by code_simp

lemma printf_d_3: "printf_d 3 = ''3'' @ [CHR 0x0A]"
  by (simp add: printf_d_def decimal.simps digit_char_def)

lemma printf_d_minus_1: "printf_d (- 1) = ''-1'' @ [CHR 0x0A]"
  by (simp add: printf_d_def decimal.simps digit_char_def)

lemma first_pass_for_13: "loop_body [1, 3, 5, 7, 9, 11, 13] 13 0 6 = Next 4 6"
  by code_simp

lemma first_pass_for_7: "loop_body [1, 3, 5, 7, 9, 11, 13] 7 0 6 = Exit (Inr 3)"
  by code_simp

lemma search_mem_5: "binary_search_mem [1, 3, 5] 3 5 = Some (Inr 2, [1, 3, 5])"
  by code_simp

section \<open>The claims\<close>

text \<open>
  In what follows \<open>sint n = int (length S)\<close> says that the argument \<open>n\<close> is the number
  of elements of the array \<open>S\<close>, and \<open>sorted (map sint S)\<close> that \<open>S\<close> is in
  non-descending order as C compares \<open>int\<close>s.
\<close>

text \<open>
  C1. For every sequence \<open>S\<close> sorted in non-descending order and every index \<open>i\<close>
  with \<open>0 \<le> i < len(S)\<close>, \<open>binary_search(S, len(S), S[i])\<close> returns some index \<open>j\<close>
  with \<open>S[j] = S[i]\<close>.
\<close>

theorem binary_search_finds_member:
  assumes "sorted (map sint S)" and "sint n = int (length S)" and "i < length S"
  shows "\<exists>j. binary_search S n (S ! i) = Some (Inr j) \<and>
           0 \<le> sint j \<and> nat (sint j) < length S \<and> S ! nat (sint j) = S ! i"
proof -
  from assms(2) obtain right where r: "sub_int n 1 = Inr right"
    "sint right = int (length S) - 1" "sint right < INT_MAX"
    by (rule right_of_length)
  have "0 \<le> sint (0 :: cint)" "sint right < int (length S)"
    "sint (0 :: cint) \<le> int i" "int i \<le> sint right"
    using r(2) assms(3) by simp_all
  from search_loop_finds [OF assms(1) this(1,2) r(3) this(3,4) refl]
  obtain j where j: "search_loop S (S ! i) 0 right = Some (Inr j)"
    "sint (0 :: cint) \<le> sint j" "sint j \<le> sint right" "S ! nat (sint j) = S ! i"
    by blast
  have "nat (sint j) < length S"
    using j(2,3) r(2) by simp
  then show ?thesis
    using j by (simp add: binary_search_def r(1))
qed

theorem binary_search_finds_member_witness:
  "sorted (map sint [1, 3, 5, 7, 9, 11, 13 :: cint]) \<and>
   sint (7 :: cint) = int (length [1, 3, 5, 7, 9, 11, 13 :: cint]) \<and>
   (3 :: nat) < length [1, 3, 5, 7, 9, 11, 13 :: cint] \<and>
   (\<exists>j. binary_search [1, 3, 5, 7, 9, 11, 13] 7 ([1, 3, 5, 7, 9, 11, 13] ! 3) = Some (Inr j) \<and>
        0 \<le> sint j \<and> nat (sint j) < length [1, 3, 5, 7, 9, 11, 13 :: cint] \<and>
        [1, 3, 5, 7, 9, 11, 13] ! nat (sint j) = [1, 3, 5, 7, 9, 11, 13 :: cint] ! 3)"
proof -
  have i: "(3 :: nat) < length [1, 3, 5, 7, 9, 11, 13 :: cint]" by simp
  show ?thesis
    using binary_search_finds_member [OF example_sorted example_length i]
      example_sorted example_length i by blast
qed

text \<open>
  C2. For every sequence \<open>S\<close> sorted in non-descending order and every integer \<open>v\<close>
  that does not occur in \<open>S\<close>, \<open>binary_search(S, len(S), v)\<close> returns the absence
  marker \<open>-1\<close>.
\<close>

theorem binary_search_absent:
  assumes "sorted (map sint S)" and "sint n = int (length S)" and "v \<notin> set S"
  shows "binary_search S n v = Some (Inr (- 1))"
proof -
  from binary_search_returns [OF assms(2), of v]
  obtain r where r: "binary_search S n v = Some (Inr r)"
    "r = - 1 \<or> 0 \<le> sint r \<and> sint r < int (length S) \<and> S ! nat (sint r) = v"
    by blast
  have "r = - 1"
  proof (rule ccontr)
    assume "r \<noteq> - 1"
    with r(2) have "0 \<le> sint r" "sint r < int (length S)" and at: "S ! nat (sint r) = v"
      by simp_all
    then have "nat (sint r) < length S" by linarith
    with at have "v \<in> set S" using nth_mem by blast
    with assms(3) show False by simp
  qed
  with r(1) show ?thesis by simp
qed

theorem binary_search_absent_witness:
  "sorted (map sint [1, 3, 5, 7, 9, 11, 13 :: cint]) \<and>
   sint (7 :: cint) = int (length [1, 3, 5, 7, 9, 11, 13 :: cint]) \<and>
   (4 :: cint) \<notin> set [1, 3, 5, 7, 9, 11, 13] \<and>
   binary_search [1, 3, 5, 7, 9, 11, 13] 7 4 = Some (Inr (- 1))"
proof -
  have v: "(4 :: cint) \<notin> set [1, 3, 5, 7, 9, 11, 13]" by simp
  show ?thesis
    using binary_search_absent [OF example_sorted example_length v]
      example_sorted example_length v by blast
qed

text \<open>
  C3. For every integer \<open>v\<close>, \<open>binary_search\<close> on an empty sequence (length 0)
  returns \<open>-1\<close> at once: \<open>right\<close> is \<open>0 - 1 = -1\<close>, so the loop condition
  \<open>left \<le> right\<close> is false at the start (\<open>left = 0\<close>). On the empty array any pass
  through the body would fault at \<open>arr[mid]\<close>, so the value returned also shows that
  the body was not entered.
\<close>

theorem binary_search_empty:
  "binary_search [] 0 v = Some (Inr (- 1)) \<and>
   sub_int 0 1 = Inr (- 1) \<and>
   \<not> sint (0 :: cint) \<le> sint (- 1 :: cint)"
  by (simp add: binary_search_def sub_int_def in_range_def INT_MAX_def INT_MIN_def
      search_loop_exit)


text \<open>
  C4. Each pass through the loop body computes \<open>mid = left + (right - left) / 2\<close>, the
  division truncating toward zero (\<open>sdiv\<close>), and for all \<open>0 \<le> left \<le> right\<close> no step of
  this computation overflows \<open>int\<close>; \<open>mid\<close> then lies between \<open>left\<close> and \<open>right\<close>.
  Every \<open>right\<close> is at most \<open>INT_MAX\<close>, so no bound by the length of the sequence is
  needed. It is this \<open>mid\<close> that the pass works with: a pass that returns a value
  returns \<open>mid\<close>, and a pass that goes round again has set \<open>left\<close> to \<open>mid + 1\<close> or
  \<open>right\<close> to \<open>mid - 1\<close>. With \<open>right\<close> below \<open>INT_MAX\<close>, as it is in every pass of a
  call (\<open>right \<le> n - 1\<close>), the pass does not overflow at all, and a call on an array of
  \<open>n\<close> elements never ends in an overflow. The naive \<open>(left + right) / 2\<close> starts with
  \<open>left + right\<close>, which does overflow for some such \<open>left\<close> and \<open>right\<close>.
\<close>

theorem midpoint_no_overflow:
  assumes "0 \<le> sint left" and "sint left \<le> sint right"
  shows "(\<exists>mid. midpoint left right = Inr mid \<and>
            sint mid = sint left + (sint right - sint left) sdiv 2 \<and>
            sint left \<le> sint mid \<and> sint mid \<le> sint right \<and>
            (\<forall>r. loop_body arr target left right = Exit (Inr r) \<longrightarrow> r = mid) \<and>
            (\<forall>left' right'. loop_body arr target left right = Next left' right' \<longrightarrow>
               sint left' = sint mid + 1 \<and> right' = right \<or>
               left' = left \<and> sint right' = sint mid - 1)) \<and>
         (sint right < INT_MAX \<longrightarrow>
            loop_body arr target left right \<noteq> Exit (Inl SignedOverflow)) \<and>
         (sint n = int (length arr) \<longrightarrow>
            binary_search arr n target \<noteq> Some (Inl SignedOverflow)) \<and>
         (\<exists>l r. 0 \<le> sint l \<and> sint l \<le> sint r \<and> add_int l r = Inl SignedOverflow)"
proof (intro conjI)
  obtain mid where mid: "midpoint left right = Inr mid"
    using assms by (rule midpoint_ok)
  note at_mid = loop_body_at_mid [OF mid, of arr target]
  show "\<exists>mid. midpoint left right = Inr mid \<and>
            sint mid = sint left + (sint right - sint left) sdiv 2 \<and>
            sint left \<le> sint mid \<and> sint mid \<le> sint right \<and>
            (\<forall>r. loop_body arr target left right = Exit (Inr r) \<longrightarrow> r = mid) \<and>
            (\<forall>left' right'. loop_body arr target left right = Next left' right' \<longrightarrow>
               sint left' = sint mid + 1 \<and> right' = right \<or>
               left' = left \<and> sint right' = sint mid - 1)"
    using mid midpoint_Inr [OF mid] midpoint_between [OF mid assms(2)] at_mid
    by (intro exI [of _ mid] conjI) (erule conjunct1 conjunct2 | assumption)+
  show "sint right < INT_MAX \<longrightarrow>
          loop_body arr target left right \<noteq> Exit (Inl SignedOverflow)"
    using assms by (intro impI) (rule loop_body_no_overflow)
  show "sint n = int (length arr) \<longrightarrow>
          binary_search arr n target \<noteq> Some (Inl SignedOverflow)"
  proof
    assume len: "sint n = int (length arr)"
    obtain r where "binary_search arr n target = Some (Inr r)"
      using binary_search_returns [OF len, of target] by (elim exE conjE)
    then show "binary_search arr n target \<noteq> Some (Inl SignedOverflow)"
      by simp
  qed
  have "0 \<le> sint (0x40000000 :: cint) \<and> sint (0x40000000 :: cint) \<le> sint (0x40000000 :: cint) \<and>
        add_int 0x40000000 0x40000000 = Inl SignedOverflow"
    by (simp add: add_int_def in_range_def INT_MAX_def INT_MIN_def)
  then show "\<exists>l r. 0 \<le> sint l \<and> sint l \<le> sint r \<and> add_int l r = Inl SignedOverflow"
    by blast
qed

theorem midpoint_no_overflow_witness:
  "0 \<le> sint (0 :: cint) \<and> sint (0 :: cint) \<le> sint (6 :: cint) \<and>
   sint (6 :: cint) < INT_MAX \<and>
   sint (7 :: cint) = int (length [1, 3, 5, 7, 9, 11, 13 :: cint]) \<and>
   (\<exists>mid. midpoint 0 6 = Inr mid \<and>
      sint mid = sint (0 :: cint) + (sint (6 :: cint) - sint (0 :: cint)) sdiv 2 \<and>
      sint (0 :: cint) \<le> sint mid \<and> sint mid \<le> sint (6 :: cint) \<and>
      loop_body [1, 3, 5, 7, 9, 11, 13] 7 0 6 = Exit (Inr mid) \<and>
      loop_body [1, 3, 5, 7, 9, 11, 13] 13 0 6 = Next 4 6 \<and>
      sint (4 :: cint) = sint mid + 1) \<and>
   loop_body [1, 3, 5, 7, 9, 11, 13] 13 0 6 \<noteq> Exit (Inl SignedOverflow) \<and>
   binary_search [1, 3, 5, 7, 9, 11, 13] 7 13 \<noteq> Some (Inl SignedOverflow)"
proof -
  have h: "0 \<le> sint (0 :: cint)" "sint (0 :: cint) \<le> sint (6 :: cint)" by simp_all
  have top: "sint (6 :: cint) < INT_MAX" by (simp add: INT_MAX_def)
  note for_13 = midpoint_no_overflow [OF h, of "[1, 3, 5, 7, 9, 11, 13]" 13 7]
  note for_7 = midpoint_no_overflow [OF h, of "[1, 3, 5, 7, 9, 11, 13]" 7 7]
  from for_7 [THEN conjunct1] obtain mid where mid: "midpoint 0 6 = Inr mid"
    and val: "sint mid = sint (0 :: cint) + (sint (6 :: cint) - sint (0 :: cint)) sdiv 2"
    and lo: "sint (0 :: cint) \<le> sint mid" and hi: "sint mid \<le> sint (6 :: cint)"
    and ret: "\<forall>r. loop_body [1, 3, 5, 7, 9, 11, 13] 7 0 6 = Exit (Inr r) \<longrightarrow> r = mid"
    by (elim exE conjE)
  have mid3: "mid = 3"
    using ret [rule_format, OF first_pass_for_7] by simp
  have a: "loop_body [1, 3, 5, 7, 9, 11, 13] 7 0 6 = Exit (Inr mid)"
    using first_pass_for_7 mid3 by simp
  have b: "sint (4 :: cint) = sint mid + 1"
    using mid3 by simp
  have c: "loop_body [1, 3, 5, 7, 9, 11, 13] 13 0 6 \<noteq> Exit (Inl SignedOverflow)"
    using for_13 [THEN conjunct2, THEN conjunct1, rule_format, OF top] .
  have d: "binary_search [1, 3, 5, 7, 9, 11, 13] 7 13 \<noteq> Some (Inl SignedOverflow)"
    using for_13 [THEN conjunct2, THEN conjunct2, THEN conjunct1, rule_format, OF example_length] .
  from mid val lo hi a b first_pass_for_13
  have e: "\<exists>mid. midpoint 0 6 = Inr mid \<and>
      sint mid = sint (0 :: cint) + (sint (6 :: cint) - sint (0 :: cint)) sdiv 2 \<and>
      sint (0 :: cint) \<le> sint mid \<and> sint mid \<le> sint (6 :: cint) \<and>
      loop_body [1, 3, 5, 7, 9, 11, 13] 7 0 6 = Exit (Inr mid) \<and>
      loop_body [1, 3, 5, 7, 9, 11, 13] 13 0 6 = Next 4 6 \<and>
      sint (4 :: cint) = sint mid + 1"
    by (intro exI [of _ mid] conjI)
  from h top example_length e c d show ?thesis
    by (intro conjI)
qed

text \<open>
  C5. For every array, length argument and target, sorted or not, the call comes to an
  end: the model's result is never \<open>None\<close>. The reason is that each pass through the
  body that goes round again leaves \<open>right - left\<close> strictly smaller.
\<close>

theorem binary_search_terminates:
  "(\<exists>res. binary_search arr n target = Some res) \<and>
   (\<forall>left right left' right'.
      sint left \<le> sint right \<and> loop_body arr target left right = Next left' right' \<longrightarrow>
      sint right' - sint left' < sint right - sint left)"
proof
  show "\<exists>res. binary_search arr n target = Some res"
    using search_loop_total by (simp add: binary_search_def split: sum.split)
  show "\<forall>left right left' right'.
      sint left \<le> sint right \<and> loop_body arr target left right = Next left' right' \<longrightarrow>
      sint right' - sint left' < sint right - sint left"
    using loop_body_narrows(3) by blast
qed

theorem binary_search_terminates_witness:
  "(\<exists>res. binary_search [1, 3, 5, 7, 9, 11, 13] 7 13 = Some res) \<and>
   sint (0 :: cint) \<le> sint (6 :: cint) \<and>
   loop_body [1, 3, 5, 7, 9, 11, 13] 13 0 6 = Next 4 6 \<and>
   sint (6 :: cint) - sint (4 :: cint) < sint (6 :: cint) - sint (0 :: cint)"
proof -
  have h: "sint (0 :: cint) \<le> sint (6 :: cint) \<and>
      loop_body [1, 3, 5, 7, 9, 11, 13] 13 0 6 = Next 4 6"
    by (simp add: first_pass_for_13)
  show ?thesis
    using binary_search_terminates [of "[1, 3, 5, 7, 9, 11, 13]" 7 13] h by blast
qed

text \<open>
  C6. \<open>main\<close>, on the fixed array \<open>{1, 3, 5, 7, 9, 11, 13}\<close>, writes exactly two
  newline-terminated lines to standard output, \<open>3\<close> for the target 7 and then \<open>-1\<close> for
  the target 4, and returns exit status 0.
\<close>

theorem main_prints:
  "main = Some (''3'' @ [CHR 0x0A] @ ''-1'' @ [CHR 0x0A], Inr 0)"
  by (simp add: main_def search_7 search_4 printf_d_3 printf_d_minus_1)

text \<open>
  C7. For \<open>S = [1, 3, 5, 7, 9, 11, 13]\<close>, searching for the first element returns index
  0 and searching for the last element returns index 6.
\<close>

theorem binary_search_first_last:
  "binary_search [1, 3, 5, 7, 9, 11, 13] 7 1 = Some (Inr 0) \<and>
   binary_search [1, 3, 5, 7, 9, 11, 13] 7 13 = Some (Inr 6)"
  by code_simp

text \<open>
  C8. For every sorted sequence \<open>S\<close> and every target, the result of \<open>binary_search\<close>
  is either an index within the bounds of \<open>S\<close> or \<open>-1\<close>, and \<open>-1\<close>, being negative,
  is not an index.
\<close>

theorem binary_search_result_range:
  assumes "sorted (map sint S)" and "sint n = int (length S)"
  shows "\<exists>r. binary_search S n v = Some (Inr r) \<and>
           (0 \<le> sint r \<and> sint r < int (length S) \<or> r = - 1) \<and>
           sint (- 1 :: cint) < 0"
  using binary_search_returns [OF assms(2), of v] minus_one_negative by blast

theorem binary_search_result_range_witness:
  "sorted (map sint [1, 3, 5, 7, 9, 11, 13 :: cint]) \<and>
   sint (7 :: cint) = int (length [1, 3, 5, 7, 9, 11, 13 :: cint]) \<and>
   (\<exists>r. binary_search [1, 3, 5, 7, 9, 11, 13] 7 9 = Some (Inr r) \<and>
      (0 \<le> sint r \<and> sint r < int (length [1, 3, 5, 7, 9, 11, 13 :: cint]) \<or> r = - 1) \<and>
      sint (- 1 :: cint) < 0)"
  using binary_search_result_range [OF example_sorted example_length, of 9]
    example_sorted example_length by blast

text \<open>
  C9. \<open>binary_search\<close> is pure and deterministic. Read as steps on the caller's
  array, the call ends with the array as it was, and with the result of
  \<open>binary_search\<close>; so a second call with the same arguments, made on the array the
  first one left, returns the same result and leaves the array as it was again. The
  result is fixed by the first \<open>n\<close> elements, \<open>n\<close> and the target alone: two calls that
  agree on these return the same result, whatever else the two arrays hold.
\<close>

theorem binary_search_pure:
  "(\<exists>res. binary_search_mem arr n target = Some (res, arr) \<and>
      binary_search arr n target = Some res) \<and>
   (\<forall>res arr1. binary_search_mem arr n target = Some (res, arr1) \<longrightarrow>
      arr1 = arr \<and> binary_search_mem arr1 n target = Some (res, arr1)) \<and>
   (\<forall>arr'. take (nat (sint n)) arr = take (nat (sint n)) arr' \<longrightarrow>
      binary_search arr n target = binary_search arr' n target)"
proof (intro conjI)
  obtain res where res: "binary_search arr n target = Some res"
    using binary_search_total [of arr n target] by (elim exE)
  then have mem: "binary_search_mem arr n target = Some (res, arr)"
    by (simp add: binary_search_mem_eq)
  from mem res
  show "\<exists>res. binary_search_mem arr n target = Some (res, arr) \<and>
      binary_search arr n target = Some res"
    by (intro exI conjI)
  show "\<forall>res arr1. binary_search_mem arr n target = Some (res, arr1) \<longrightarrow>
      arr1 = arr \<and> binary_search_mem arr1 n target = Some (res, arr1)"
    using mem by simp
  show "\<forall>arr'. take (nat (sint n)) arr = take (nat (sint n)) arr' \<longrightarrow>
      binary_search arr n target = binary_search arr' n target"
    by (intro allI impI) (rule binary_search_take_eq)
qed

theorem binary_search_pure_witness:
  "binary_search_mem [1, 3, 5] 3 5 = Some (Inr 2, [1, 3, 5]) \<and>
   binary_search [1, 3, 5] 3 5 = Some (Inr 2) \<and>
   take (nat (sint (3 :: cint))) [1, 3, 5 :: cint] = take (nat (sint (3 :: cint))) [1, 3, 5, 2, 0] \<and>
   binary_search [1, 3, 5] 3 5 = binary_search [1, 3, 5, 2, 0] 3 5"
proof -
  note pure = binary_search_pure [of "[1, 3, 5]" 3 5]
  have h: "take (nat (sint (3 :: cint))) [1, 3, 5 :: cint] =
      take (nat (sint (3 :: cint))) [1, 3, 5, 2, 0]"
    by simp
  note again = pure [THEN conjunct2, THEN conjunct1, rule_format, OF search_mem_5]
  note same = pure [THEN conjunct2, THEN conjunct2, rule_format, OF h]
  obtain res where res: "binary_search_mem [1, 3, 5] 3 5 = Some (res, [1, 3, 5])"
    "binary_search [1, 3, 5] 3 5 = Some res"
    using pure [THEN conjunct1] by (elim exE conjE)
  from res(1) have "res = Inr 2" by (simp add: search_mem_5)
  with res(2) have "binary_search [1, 3, 5] 3 5 = Some (Inr 2)" by simp
  with again h same show ?thesis
    by (intro conjI) (erule conjunct1 conjunct2 | assumption)+
qed

text \<open>
  C10. For every array of \<open>n\<close> elements, sorted or not, and every target, every read
  \<open>arr[mid]\<close> made during the call is inside the array: the call never ends in the
  out-of-bounds fault. The reason is the invariant \<open>0 \<le> left\<close> and \<open>right \<le> n - 1\<close>:
  it holds at the start, a pass through the body that starts from it with
  \<open>left \<le> right\<close> has \<open>left \<le> mid \<le> right\<close> and so reads inside the array, and if the
  pass goes round again the invariant holds of the new \<open>left\<close> and \<open>right\<close>.
\<close>

theorem binary_search_in_bounds:
  assumes "sint n = int (length arr)"
  shows "binary_search arr n target \<noteq> Some (Inl OutOfBounds) \<and>
         (\<forall>left right.
            0 \<le> sint left \<and> sint left \<le> sint right \<and> sint right \<le> sint n - 1 \<longrightarrow>
            (\<exists>mid. midpoint left right = Inr mid \<and>
               sint left \<le> sint mid \<and> sint mid \<le> sint right \<and>
               index arr mid = Inr (arr ! nat (sint mid))) \<and>
            loop_body arr target left right \<noteq> Exit (Inl OutOfBounds) \<and>
            (\<forall>left' right'. loop_body arr target left right = Next left' right' \<longrightarrow>
               0 \<le> sint left' \<and> sint right' \<le> sint n - 1))"
proof
  obtain r where "binary_search arr n target = Some (Inr r)"
    using binary_search_returns [OF assms, of target] by (elim exE conjE)
  then show "binary_search arr n target \<noteq> Some (Inl OutOfBounds)"
    by simp
  show "\<forall>left right.
            0 \<le> sint left \<and> sint left \<le> sint right \<and> sint right \<le> sint n - 1 \<longrightarrow>
            (\<exists>mid. midpoint left right = Inr mid \<and>
               sint left \<le> sint mid \<and> sint mid \<le> sint right \<and>
               index arr mid = Inr (arr ! nat (sint mid))) \<and>
            loop_body arr target left right \<noteq> Exit (Inl OutOfBounds) \<and>
            (\<forall>left' right'. loop_body arr target left right = Next left' right' \<longrightarrow>
               0 \<le> sint left' \<and> sint right' \<le> sint n - 1)"
  proof (intro allI impI, elim conjE)
    fix left right :: cint
    assume l: "0 \<le> sint left" and lr: "sint left \<le> sint right"
      and r: "sint right \<le> sint n - 1"
    have len: "sint right < int (length arr)"
      using r assms by simp
    have "sint n \<le> INT_MAX"
      using sint_in_range [of n] by (simp add: in_range_def)
    then have top: "sint right < INT_MAX"
      using r by simp
    obtain mid where mid: "midpoint left right = Inr mid"
      using l lr by (rule midpoint_ok)
    note b = midpoint_between [OF mid lr]
    have "index arr mid = Inr (arr ! nat (sint mid))"
      using l b len by (intro index_ok) linarith+
    with mid b have access: "\<exists>mid. midpoint left right = Inr mid \<and>
        sint left \<le> sint mid \<and> sint mid \<le> sint right \<and>
        index arr mid = Inr (arr ! nat (sint mid))"
      by blast
    have no_fault: "loop_body arr target left right \<noteq> Exit (Inl OutOfBounds)"
      using l lr len top by (rule loop_body_no_fault)
    have "0 \<le> sint left' \<and> sint right' \<le> sint n - 1"
      if "loop_body arr target left right = Next left' right'" for left' right'
      using loop_body_narrows(1,2) [OF that lr] l r by linarith
    then have after: "\<forall>left' right'. loop_body arr target left right = Next left' right' \<longrightarrow>
        0 \<le> sint left' \<and> sint right' \<le> sint n - 1"
      by (intro allI impI)
    from access no_fault after
    show "(\<exists>mid. midpoint left right = Inr mid \<and>
               sint left \<le> sint mid \<and> sint mid \<le> sint right \<and>
               index arr mid = Inr (arr ! nat (sint mid))) \<and>
            loop_body arr target left right \<noteq> Exit (Inl OutOfBounds) \<and>
            (\<forall>left' right'. loop_body arr target left right = Next left' right' \<longrightarrow>
               0 \<le> sint left' \<and> sint right' \<le> sint n - 1)"
      by (intro conjI)
  qed
qed

theorem binary_search_in_bounds_witness:
  "sint (7 :: cint) = int (length [1, 3, 5, 7, 9, 11, 13 :: cint]) \<and>
   binary_search [1, 3, 5, 7, 9, 11, 13] 7 13 \<noteq> Some (Inl OutOfBounds) \<and>
   0 \<le> sint (0 :: cint) \<and> sint (0 :: cint) \<le> sint (6 :: cint) \<and>
   sint (6 :: cint) \<le> sint (7 :: cint) - 1 \<and>
   loop_body [1, 3, 5, 7, 9, 11, 13] 13 0 6 \<noteq> Exit (Inl OutOfBounds) \<and>
   loop_body [1, 3, 5, 7, 9, 11, 13] 13 0 6 = Next 4 6 \<and>
   0 \<le> sint (4 :: cint) \<and> sint (6 :: cint) \<le> sint (7 :: cint) - 1"
proof -
  note call = binary_search_in_bounds [OF example_length, of 13]
  have h: "0 \<le> sint (0 :: cint) \<and> sint (0 :: cint) \<le> sint (6 :: cint) \<and>
      sint (6 :: cint) \<le> sint (7 :: cint) - 1"
    by simp
  note pass = call [THEN conjunct2, rule_format, OF h]
  note after = pass [THEN conjunct2, THEN conjunct2, rule_format, OF first_pass_for_13]
  show ?thesis
    using example_length call [THEN conjunct1] h pass [THEN conjunct2, THEN conjunct1]
      first_pass_for_13 after
    by (intro conjI) (erule conjunct1 conjunct2 | assumption | simp)+
qed

end
